theory Spec2Isabelle
  imports Complex_Main "HOL-Library.AList" "HOL-Library.Multiset" "HOL-Library.Product_Lexorder"
begin

section \<open>Python values, exceptions and objects\<close>

text \<open>
  The embedding follows \<^verbatim>\<open>src/vertex_orchestrator.py\<close>. Python floats are
  modelled as reals (timestamps, load factors, the compound mean), Python's unbounded
  integers as \<open>int\<close>, strings as \<open>string\<close>, and a \<^verbatim>\<open>dict\<close> as an
  association list in insertion order: \<open>AList.update\<close> overwrites a present key in
  place and appends an absent one, as assignment to a dict does, \<open>map_of\<close> is the
  lookup and \<open>AList.delete\<close> is \<^verbatim>\<open>del\<close>. Exceptions are values of
  \<open>pyexc\<close>; only subclasses of \<^verbatim>\<open>Exception\<close> are modelled.
\<close>

type_synonym time = real

datatype pyexc =
    ValueError string
  | RuntimeError string
  | ZeroDivisionError
  | KeyError string
  | OtherException string

datatype pyval =
    PNone
  | PBool bool
  | PInt int
  | PFloat real
  | PStr string
  | PList "pyval list"
  | PDict "(string \<times> pyval) list"

text \<open>
  A loaded algorithm is an object. \<^verbatim>\<open>_execute_algorithm\<close> looks at its shape
  only: it has an \<^verbatim>\<open>execute\<close> method, or it is callable, or neither. What the
  algorithm does with a payload is a function that returns a value or raises. An object
  carries the identity the Python heap gave it when it was constructed.
\<close>

datatype shape =
    HasExecute "pyval \<Rightarrow> pyexc + pyval"
  | Callable "pyval \<Rightarrow> pyexc + pyval"
  | Inert

datatype pyobj = PyNone | Obj nat shape

text \<open>
  A registered factory is called with no argument: it raises, returns \<^verbatim>\<open>None\<close>,
  or constructs a new object.
\<close>

datatype factory = Raises pyexc | ReturnsNone | Constructs shape

definition has_key :: "('k \<times> 'v) list \<Rightarrow> 'k \<Rightarrow> bool" where
  "has_key d k = (map_of d k \<noteq> None)"

text \<open>
  \<^verbatim>\<open>float('inf')\<close> is the only non-finite float the module writes; it is the key
  of an entry that is not cached in \<^verbatim>\<open>_evict_least_used\<close>.
\<close>

datatype pyfloat = Fin real | PosInf

instantiation pyfloat :: linorder
begin

fun less_eq_pyfloat :: "pyfloat \<Rightarrow> pyfloat \<Rightarrow> bool" where
  "less_eq_pyfloat (Fin a) (Fin b) = (a \<le> b)"
| "less_eq_pyfloat _ PosInf = True"
| "less_eq_pyfloat PosInf (Fin b) = False"

definition less_pyfloat :: "pyfloat \<Rightarrow> pyfloat \<Rightarrow> bool" where
  "less_pyfloat x y = (x \<le> y \<and> \<not> y \<le> (x::pyfloat))"

instance
proof
  fix x y z :: pyfloat
  show "(x < y) = (x \<le> y \<and> \<not> y \<le> x)"
    by (simp add: less_pyfloat_def)
  show "x \<le> x"
    by (cases x) simp_all
  show "x \<le> y \<Longrightarrow> y \<le> z \<Longrightarrow> x \<le> z"
    by (cases x; cases y; cases z) simp_all
  show "x \<le> y \<Longrightarrow> y \<le> x \<Longrightarrow> x = y"
    by (cases x; cases y) simp_all
  show "x \<le> y \<or> y \<le> x"
    by (cases x; cases y) auto
qed

end

text \<open>
  The builtin \<^verbatim>\<open>min(iterable, key=...)\<close>: the key of every item is computed (and
  may raise), an item replaces the current best only when its key is strictly smaller,
  so the first of several minimal items is returned; an empty iterable raises
  \<^verbatim>\<open>ValueError\<close>.
\<close>

fun min_loop :: "('a \<Rightarrow> pyexc + 'k::linorder) \<Rightarrow> 'a \<Rightarrow> 'k \<Rightarrow> 'a list \<Rightarrow> pyexc + 'a" where
  "min_loop key best kb [] = Inr best"
| "min_loop key best kb (x # xs) =
     (case key x of
        Inl e \<Rightarrow> Inl e
      | Inr kx \<Rightarrow> if kx < kb then min_loop key x kx xs else min_loop key best kb xs)"

definition py_min :: "('a \<Rightarrow> pyexc + 'k::linorder) \<Rightarrow> 'a list \<Rightarrow> pyexc + 'a" where
  "py_min key xs =
     (case xs of
        [] \<Rightarrow> Inl (ValueError ''min() arg is an empty sequence'')
      | x # ys \<Rightarrow> (case key x of Inl e \<Rightarrow> Inl e | Inr kx \<Rightarrow> min_loop key x kx ys))"

section \<open>Algorithm metadata and the lazy loader\<close>

datatype AlgorithmType =
    PREDICTIVE | LEARNING | CAUSAL | RECURSIVE | OPTIMIZATION
  | PATTERN_RECOGNITION | DECISION_MAKING | MEMORY_MANAGEMENT

datatype AlgorithmPriority = CRITICAL | HIGH | MEDIUM | LOW | BACKGROUND

fun priority_value :: "AlgorithmPriority \<Rightarrow> nat" where
  "priority_value CRITICAL = 1"
| "priority_value HIGH = 2"
| "priority_value MEDIUM = 3"
| "priority_value LOW = 4"
| "priority_value BACKGROUND = 5"

record AlgorithmMetadata =
  algorithm_id :: string
  algorithm_type :: AlgorithmType
  priority :: AlgorithmPriority
  resource_requirements :: "(string \<times> real) list"
  dependencies :: "string list"
  execution_time_avg :: real
  success_rate :: real
  last_used :: time
  usage_count :: int
  memory_footprint :: int
  cpu_intensity :: real
  cascading_potential :: real
  compounding_factor :: real

text \<open>
  The loader's state. Besides the fields of the class, the record carries the part of
  the environment the loader reads: \<open>clock\<close> and \<open>ticks\<close> give the value of the
  next \<^verbatim>\<open>time.time()\<close> call (any sequence of readings, not assumed to increase),
  and \<open>fresh\<close> is the identity the next constructed object receives. Every
  registration is taken to pass a metadata object of its own, so the metadata of one
  id is not aliased by another.
\<close>

record LazyAlgorithmLoader =
  max_cache_size :: int
  algorithm_cache :: "(string \<times> pyobj) list"
  algorithm_metadata :: "(string \<times> AlgorithmMetadata) list"
  access_history :: "(string \<times> time) list"
  algorithm_registry :: "(string \<times> factory) list"
  clock :: "nat \<Rightarrow> time"
  ticks :: nat
  fresh :: nat

definition new_loader :: "int \<Rightarrow> (nat \<Rightarrow> time) \<Rightarrow> LazyAlgorithmLoader" where
  "new_loader cap clk =
     \<lparr> max_cache_size = cap, algorithm_cache = [], algorithm_metadata = [],
       access_history = [], algorithm_registry = [], clock = clk, ticks = 0, fresh = 0 \<rparr>"

definition register_algorithm ::
  "LazyAlgorithmLoader \<Rightarrow> string \<Rightarrow> factory \<Rightarrow> AlgorithmMetadata \<Rightarrow> LazyAlgorithmLoader" where
  "register_algorithm ld aid algorithm_func metadata =
     ld \<lparr> algorithm_registry := AList.update aid algorithm_func (algorithm_registry ld),
          algorithm_metadata := AList.update aid metadata (algorithm_metadata ld) \<rparr>"

text \<open>\<^verbatim>\<open>deque(maxlen=n).append\<close>: the oldest entry is dropped when the deque is full.\<close>

definition deque_append :: "nat \<Rightarrow> 'a list \<Rightarrow> 'a \<Rightarrow> 'a list" where
  "deque_append n xs x = (let ys = xs @ [x] in drop (length ys - n) ys)"

text \<open>\<^verbatim>\<open>_update_access_stats\<close>; it reads the clock twice.\<close>

definition update_access_stats :: "LazyAlgorithmLoader \<Rightarrow> string \<Rightarrow> LazyAlgorithmLoader" where
  "update_access_stats ld aid =
     (case map_of (algorithm_metadata ld) aid of
        None \<Rightarrow> ld
      | Some metadata \<Rightarrow>
          let metadata' = metadata \<lparr> last_used := clock ld (ticks ld),
                                    usage_count := usage_count metadata + 1 \<rparr>
          in ld \<lparr> algorithm_metadata := AList.update aid metadata' (algorithm_metadata ld),
                  access_history :=
                    deque_append 1000 (access_history ld) (aid, clock ld (ticks ld + 1)),
                  ticks := ticks ld + 2 \<rparr>)"

text \<open>
  \<^verbatim>\<open>_evict_least_used\<close>. The minimum runs over all metadata items, in the order of
  the metadata dict; an item that is not cached has the key \<^verbatim>\<open>float('inf')\<close>.
\<close>

definition eviction_key :: "LazyAlgorithmLoader \<Rightarrow> string \<times> AlgorithmMetadata \<Rightarrow> pyexc + pyfloat" where
  "eviction_key ld x =
     Inr (if has_key (algorithm_cache ld) (fst x) then Fin (last_used (snd x)) else PosInf)"

definition evict_least_used :: "LazyAlgorithmLoader \<Rightarrow> pyexc + LazyAlgorithmLoader" where
  "evict_least_used ld =
     (if algorithm_cache ld = [] then Inr ld
      else
        (case py_min (eviction_key ld) (algorithm_metadata ld) of
           Inl e \<Rightarrow> Inl e
         | Inr item \<Rightarrow>
             let lru_algorithm = fst item
             in if has_key (algorithm_cache ld) lru_algorithm
                then Inr (ld \<lparr> algorithm_cache := AList.delete lru_algorithm (algorithm_cache ld) \<rparr>)
                else Inr ld))"

text \<open>
  \<^verbatim>\<open>load_algorithm\<close>. The result is the returned object (\<open>PyNone\<close> for
  \<^verbatim>\<open>None\<close>) and the new state, or the exception that leaves the method. The
  eviction runs before the \<^verbatim>\<open>try\<close>, so an exception of \<^verbatim>\<open>min\<close> would
  leave the method; an exception of the factory is caught and turned into \<^verbatim>\<open>None\<close>.
\<close>

definition load_algorithm ::
  "LazyAlgorithmLoader \<Rightarrow> string \<Rightarrow> pyexc + (pyobj \<times> LazyAlgorithmLoader)" where
  "load_algorithm ld aid =
     (case map_of (algorithm_cache ld) aid of
        Some cached \<Rightarrow> Inr (cached, update_access_stats ld aid)
      | None \<Rightarrow>
          (case map_of (algorithm_registry ld) aid of
             None \<Rightarrow> Inr (PyNone, ld)
           | Some algorithm_func \<Rightarrow>
               (case (if int (length (algorithm_cache ld)) \<ge> max_cache_size ld
                      then evict_least_used ld else Inr ld) of
                  Inl e \<Rightarrow> Inl e
                | Inr ld1 \<Rightarrow>
                    (case algorithm_func of
                       Raises e \<Rightarrow> Inr (PyNone, ld1)
                     | ReturnsNone \<Rightarrow>
                         Inr (PyNone,
                              update_access_stats
                                (ld1 \<lparr> algorithm_cache :=
                                         AList.update aid PyNone (algorithm_cache ld1) \<rparr>) aid)
                     | Constructs s \<Rightarrow>
                         let loaded_algorithm = Obj (fresh ld1) s
                         in Inr (loaded_algorithm,
                                 update_access_stats
                                   (ld1 \<lparr> algorithm_cache :=
                                            AList.update aid loaded_algorithm (algorithm_cache ld1),
                                          fresh := Suc (fresh ld1) \<rparr>) aid)))))"

section \<open>The cascading and compounding engine\<close>



















section \<open>The vertex orchestrator\<close>

record VertexNode =
  vertex_id :: string
  algorithms :: "string list"
  connections :: "string list"
  state :: "(string \<times> pyval) list"
  load_factor :: real
  active_tasks :: int
  max_capacity :: int

record ResourceMonitor =
  cpu_usage :: real
  memory_usage :: real
  network_usage :: real
  disk_usage :: real

record task_data =
  task_id :: string
  task_algorithm_id :: string
  task_payload :: pyval
  task_vertex_id :: string
  timestamp :: time

text \<open>
  An entry of the task queue is the tuple
  \<^verbatim>\<open>(priority.value, task_counter, task_data)\<close>. Tuples compare lexicographically;
  \<open>entry_key\<close> is the part of an entry that is compared before the task dict, which
  itself cannot be ordered. Pairs of naturals carry the lexicographic order.
\<close>

type_synonym queue_entry = "nat \<times> nat \<times> task_data"


text \<open>
  The orchestrator's state: the vertex table, the task queue, the resource monitor, the
  running flag and the attribute \<^verbatim>\<open>_task_counter\<close>, which does not exist before the
  first submission. The loader and the engine are the records above; the table of
  pending futures and the performance tracker are not read by the methods modelled here.
\<close>

record VertexOrchestrator =
  max_concurrent_tasks :: int
  vertices :: "(string \<times> VertexNode) list"
  task_queue :: "queue_entry list"
  resource_monitor :: ResourceMonitor
  running :: bool
  task_counter :: "nat option"

definition new_orchestrator :: "int \<Rightarrow> VertexOrchestrator" where
  "new_orchestrator n =
     \<lparr> max_concurrent_tasks = n, vertices = [], task_queue = [],
       resource_monitor =
         \<lparr> cpu_usage = 0, memory_usage = 0, network_usage = 0, disk_usage = 0 \<rparr>,
       running = False, task_counter = None \<rparr>"

definition create_vertex ::
  "VertexOrchestrator \<Rightarrow> string \<Rightarrow> int \<Rightarrow> VertexNode \<times> VertexOrchestrator" where
  "create_vertex orch vid capacity =
     (let vertex = \<lparr> vertex_id = vid, algorithms = [], connections = [], state = [],
                      load_factor = 0, active_tasks = 0, max_capacity = capacity \<rparr>
      in (vertex, orch \<lparr> vertices := AList.update vid vertex (vertices orch) \<rparr>))"

text \<open>
  The key of \<^verbatim>\<open>_select_optimal_vertex\<close>:
  \<^verbatim>\<open>load_factor + (active_tasks / max_capacity)\<close>, a true division of two
  integers, which raises \<^verbatim>\<open>ZeroDivisionError\<close> on a zero divisor.
\<close>

definition selection_key :: "string \<times> VertexNode \<Rightarrow> pyexc + real" where
  "selection_key x =
     (if max_capacity (snd x) = 0 then Inl ZeroDivisionError
      else Inr (load_factor (snd x)
                + real_of_int (active_tasks (snd x)) / real_of_int (max_capacity (snd x))))"

definition select_optimal_vertex ::
  "VertexOrchestrator \<Rightarrow> string \<Rightarrow> pyexc + (string \<times> VertexOrchestrator)" where
  "select_optimal_vertex orch aid =
     (if vertices orch = []
      then Inr (''default_vertex'', snd (create_vertex orch ''default_vertex'' 10))
      else
        (case py_min selection_key (vertices orch) of
           Inl e \<Rightarrow> Inl e
         | Inr optimal_vertex \<Rightarrow> Inr (fst optimal_vertex, orch)))"

text \<open>
  \<^verbatim>\<open>execute_task\<close> up to the point where the caller waits for the result: the
  vertex is chosen, the task dict is built with the current time, and the entry is put
  into the queue under the next counter. \<^verbatim>\<open>asyncio.PriorityQueue\<close> is the standard
  library's; it is modelled by its contract, as the collection of the entries put and not
  yet taken, kept here in the order they were put.
\<close>

definition queue_put :: "queue_entry list \<Rightarrow> queue_entry \<Rightarrow> queue_entry list" where
  "queue_put q item = q @ [item]"

definition execute_task ::
  "VertexOrchestrator \<Rightarrow> string \<Rightarrow> string \<Rightarrow> pyval \<Rightarrow> AlgorithmPriority \<Rightarrow> string option
     \<Rightarrow> time \<Rightarrow> pyexc + VertexOrchestrator" where
  "execute_task orch tid aid data prio vid now =
     (case (case vid of
              None \<Rightarrow> select_optimal_vertex orch aid
            | Some v \<Rightarrow> Inr (v, orch)) of
        Inl e \<Rightarrow> Inl e
      | Inr (v, orch1) \<Rightarrow>
          let task = \<lparr> task_id = tid, task_algorithm_id = aid, task_payload = data,
                       task_vertex_id = v, timestamp = now \<rparr>;
              counter = (case task_counter orch1 of None \<Rightarrow> 0 | Some c \<Rightarrow> c)
          in Inr (orch1 \<lparr> task_counter := Some (counter + 1),
                          task_queue :=
                            queue_put (task_queue orch1) (priority_value prio, counter, task) \<rparr>))"






text \<open>
  \<^verbatim>\<open>ResourceMonitor.update_metrics\<close>: the two percentages of \<^verbatim>\<open>psutil\<close>, or the
  fallback values when the import fails.
\<close>

datatype psutil = NotInstalled | Percentages real real

definition update_metrics :: "ResourceMonitor \<Rightarrow> psutil \<Rightarrow> ResourceMonitor" where
  "update_metrics rm ps =
     (case ps of
        Percentages cpu mem \<Rightarrow> rm \<lparr> cpu_usage := cpu, memory_usage := mem \<rparr>
      | NotInstalled \<Rightarrow> rm \<lparr> cpu_usage := 50, memory_usage := 60 \<rparr>)"

definition get_cpu_usage :: "ResourceMonitor \<Rightarrow> real" where
  "get_cpu_usage rm = cpu_usage rm"

definition get_memory_usage :: "ResourceMonitor \<Rightarrow> real" where
  "get_memory_usage rm = memory_usage rm"

text \<open>One iteration of the loop of \<^verbatim>\<open>_monitor_resources\<close>, and the loop itself.\<close>

definition monitor_step :: "VertexOrchestrator \<Rightarrow> psutil \<Rightarrow> VertexOrchestrator" where
  "monitor_step orch ps =
     (let rm = update_metrics (resource_monitor orch) ps
      in orch \<lparr> resource_monitor := rm,
                vertices :=
                  map (\<lambda>kv. (fst kv,
                              (snd kv) \<lparr> load_factor :=
                                          (get_cpu_usage rm + get_memory_usage rm) / 2 \<rparr>))
                      (vertices orch) \<rparr>)"

fun monitor_resources :: "VertexOrchestrator \<Rightarrow> psutil list \<Rightarrow> VertexOrchestrator" where
  "monitor_resources orch [] = orch"
| "monitor_resources orch (ps # rest) =
     (if running orch then monitor_resources (monitor_step orch ps) rest else orch)"

section \<open>Notions used to state the claims\<close>

text \<open>
  The well-formedness of a loader state: the cache and the metadata table have no
  duplicate key (they are dicts), the registry and the metadata table hold the same ids
  in the same order (\<^verbatim>\<open>register_algorithm\<close> writes both), and every cached id has
  metadata.
\<close>

definition loader_inv :: "LazyAlgorithmLoader \<Rightarrow> bool" where
  "loader_inv ld =
     (distinct (map fst (algorithm_cache ld))
      \<and> distinct (map fst (algorithm_metadata ld))
      \<and> map fst (algorithm_registry ld) = map fst (algorithm_metadata ld)
      \<and> set (map fst (algorithm_cache ld)) \<subseteq> set (map fst (algorithm_metadata ld)))"

text \<open>The operations a client performs on a loader, and a run of them.\<close>

datatype loader_op = Register string factory AlgorithmMetadata | Load string

fun apply_op :: "LazyAlgorithmLoader \<Rightarrow> loader_op \<Rightarrow> pyexc + LazyAlgorithmLoader" where
  "apply_op ld (Register aid algorithm_func metadata) =
     Inr (register_algorithm ld aid algorithm_func metadata)"
| "apply_op ld (Load aid) =
     (case load_algorithm ld aid of Inl e \<Rightarrow> Inl e | Inr res \<Rightarrow> Inr (snd res))"

fun run_ops :: "LazyAlgorithmLoader \<Rightarrow> loader_op list \<Rightarrow> pyexc + LazyAlgorithmLoader" where
  "run_ops ld [] = Inr ld"
| "run_ops ld (opn # ops) =
     (case apply_op ld opn of Inl e \<Rightarrow> Inl e | Inr ld' \<Rightarrow> run_ops ld' ops)"

text \<open>
  \<open>oldest_cached ld k\<close>: the id \<open>k\<close> is cached and no cached id has an older
  last-used timestamp in the metadata table.
\<close>

definition oldest_cached :: "LazyAlgorithmLoader \<Rightarrow> string \<Rightarrow> bool" where
  "oldest_cached ld k =
     (has_key (algorithm_cache ld) k
      \<and> (\<exists>md. map_of (algorithm_metadata ld) k = Some md
            \<and> list_all (\<lambda>x. has_key (algorithm_cache ld) (fst x) \<longrightarrow> last_used md \<le> last_used (snd x))
                 (algorithm_metadata ld)))"

text \<open>
  The constructor of the \<^verbatim>\<open>AlgorithmMetadata\<close> dataclass with its default values;
  \<open>now\<close> is the reading of \<^verbatim>\<open>time.time()\<close> that initialises \<open>last_used\<close>.
\<close>

definition new_metadata ::
  "string \<Rightarrow> AlgorithmType \<Rightarrow> AlgorithmPriority \<Rightarrow> (string \<times> real) list \<Rightarrow> time
     \<Rightarrow> AlgorithmMetadata" where
  "new_metadata aid ty prio reqs now =
     \<lparr> algorithm_id = aid, algorithm_type = ty, priority = prio, resource_requirements = reqs,
       dependencies = [], execution_time_avg = 0, success_rate = 1, last_used = now,
       usage_count = 0, memory_footprint = 0, cpu_intensity = 1, cascading_potential = 0,
       compounding_factor = 1 \<rparr>"

text \<open>
  Two clocks: one whose readings all coincide, as those of a clock of coarse precision do
  for calls close in time, and one that advances at every reading.
\<close>

definition frozen_clock :: "nat \<Rightarrow> time" where
  "frozen_clock n = 0"

definition ticking_clock :: "nat \<Rightarrow> time" where
  "ticking_clock n = real n"

text \<open>
  What a client can observe of a loader: the cached ids, and the use count and the
  last-used timestamp of an id.
\<close>

definition cached_ids :: "LazyAlgorithmLoader \<Rightarrow> string list" where
  "cached_ids ld = map fst (algorithm_cache ld)"

definition use_count :: "LazyAlgorithmLoader \<Rightarrow> string \<Rightarrow> int option" where
  "use_count ld aid = map_option usage_count (map_of (algorithm_metadata ld) aid)"

definition last_used_of :: "LazyAlgorithmLoader \<Rightarrow> string \<Rightarrow> time option" where
  "last_used_of ld aid = map_option last_used (map_of (algorithm_metadata ld) aid)"







text \<open>A value on the percentage scale of \<^verbatim>\<open>psutil\<close>.\<close>

definition percent :: "real \<Rightarrow> bool" where
  "percent x = (0 \<le> x \<and> x \<le> 100)"

text \<open>Every vertex of the orchestrator has its load factor in the interval from 0 to 1.\<close>

definition load_factors_normalized :: "VertexOrchestrator \<Rightarrow> bool" where
  "load_factors_normalized orch =
     list_all (\<lambda>kv. 0 \<le> load_factor (snd kv) \<and> load_factor (snd kv) \<le> 1) (vertices orch)"

section \<open>Example algorithms and states\<close>

text \<open>
  Example algorithms and states used to evaluate the model: \<open>double\<close> is the
  specification's \<^verbatim>\<open>double(x) = x*2\<close> with Python's meaning of \<^verbatim>\<open>*\<close>, and
  \<open>always_raises\<close> throws on every payload.
\<close>

fun double :: "pyval \<Rightarrow> pyexc + pyval" where
  "double (PInt i) = Inr (PInt (i * 2))"
| "double (PFloat x) = Inr (PFloat (x * 2))"
| "double (PBool b) = Inr (PInt (if b then 2 else 0))"
| "double (PStr s) = Inr (PStr (s @ s))"
| "double (PList xs) = Inr (PList (xs @ xs))"
| "double _ = Inl (OtherException ''TypeError'')"

definition always_raises :: "pyval \<Rightarrow> pyexc + pyval" where
  "always_raises v = Inl (OtherException ''boom'')"

definition demo_md :: "string \<Rightarrow> AlgorithmMetadata" where
  "demo_md aid = new_metadata aid PREDICTIVE MEDIUM [] 0"

definition tie_ops :: "loader_op list" where
  "tie_ops =
     [Register ''a'' (Constructs Inert) (demo_md ''a''),
      Register ''b'' (Constructs Inert) (demo_md ''b''),
      Register ''c'' (Constructs Inert) (demo_md ''c''),
      Load ''a'', Load ''a'', Load ''b'']"

definition tie_state :: LazyAlgorithmLoader where
  "tie_state = projr (run_ops (new_loader 2 frozen_clock) tie_ops)"

definition lru_ops :: "loader_op list" where
  "lru_ops =
     [Register ''a'' (Constructs Inert) (demo_md ''a''),
      Register ''b'' (Constructs Inert) (demo_md ''b''),
      Register ''c'' (Constructs Inert) (demo_md ''c''),
      Load ''a'', Load ''b'']"

definition lru_state :: LazyAlgorithmLoader where
  "lru_state = projr (run_ops (new_loader 2 ticking_clock) lru_ops)"

definition broken_ops :: "loader_op list" where
  "broken_ops = [Register ''broken'' (Raises (OtherException ''boom'')) (demo_md ''broken'')]"

definition broken_state :: LazyAlgorithmLoader where
  "broken_state = projr (run_ops (new_loader 100 frozen_clock) broken_ops)"

definition double_ops :: "loader_op list" where
  "double_ops = [Register ''double'' (Constructs (Callable double)) (demo_md ''double'')]"

definition double_state :: LazyAlgorithmLoader where
  "double_state = projr (run_ops (new_loader 100 ticking_clock) double_ops)"

definition abc_ops :: "loader_op list" where
  "abc_ops =
     [Register ''A'' (Constructs (Callable double)) (demo_md ''A''),
      Register ''B'' (Constructs (HasExecute always_raises)) (demo_md ''B''),
      Register ''C'' (Constructs (Callable double)) (demo_md ''C'')]"








section \<open>The builtin minimum\<close>

lemma min_loop_raises:
  "\<exists>x\<in>set xs. key x = Inl e \<Longrightarrow> \<forall>x\<in>set xs. \<forall>e'. key x = Inl e' \<longrightarrow> e' = e
     \<Longrightarrow> min_loop key best kb xs = Inl e"
proof (induction xs arbitrary: best kb)
  case Nil
  then show ?case by simp
next
  case (Cons x xs)
  show ?case
  proof (cases "key x")
    case (Inl e')
    with Cons.prems(2) have "e' = e" by simp
    with Inl show ?thesis by simp
  next
    case (Inr kx)
    with Cons.prems(1) have "\<exists>y\<in>set xs. key y = Inl e" by auto
    moreover from Cons.prems(2) have "\<forall>y\<in>set xs. \<forall>e'. key y = Inl e' \<longrightarrow> e' = e" by simp
    ultimately have "min_loop key b k xs = Inl e" for b k
      by (rule Cons.IH)
    with Inr show ?thesis by simp
  qed
qed

lemma py_min_raises:
  assumes "\<exists>x\<in>set xs. key x = Inl e"
    and "\<forall>x\<in>set xs. \<forall>e'. key x = Inl e' \<longrightarrow> e' = e"
  shows "py_min key xs = Inl e"
proof (cases xs)
  case Nil
  with assms(1) show ?thesis by simp
next
  case (Cons x ys)
  show ?thesis
  proof (cases "key x")
    case (Inl e')
    with assms(2) Cons have "e' = e" by simp
    with Inl Cons show ?thesis by (simp add: py_min_def)
  next
    case (Inr kx)
    with assms(1) Cons have "\<exists>y\<in>set ys. key y = Inl e" by auto
    moreover from assms(2) Cons have "\<forall>y\<in>set ys. \<forall>e'. key y = Inl e' \<longrightarrow> e' = e" by simp
    ultimately have "min_loop key x kx ys = Inl e"
      by (rule min_loop_raises)
    with Inr Cons show ?thesis by (simp add: py_min_def)
  qed
qed

lemma min_loop_total:
  assumes "\<forall>x\<in>set xs. key x = Inr (k x)"
  shows "\<exists>m. min_loop key best kb xs = Inr m \<and> (m = best \<or> m \<in> set xs)"
  using assms
proof (induction xs arbitrary: best kb)
  case Nil
  then show ?case by simp
next
  case (Cons x xs)
  then show ?case by (simp) (metis)
qed

lemma py_min_total:
  assumes "xs \<noteq> []" and "\<forall>x\<in>set xs. key x = Inr (k x)"
  shows "\<exists>m\<in>set xs. py_min key xs = Inr m"
proof (cases xs)
  case Nil
  with assms(1) show ?thesis by simp
next
  case (Cons x ys)
  with assms(2) have kx: "key x = Inr (k x)" and "\<forall>y\<in>set ys. key y = Inr (k y)" by simp_all
  from min_loop_total[OF this(2), of x "k x"] obtain m where
    "min_loop key x (k x) ys = Inr m" "m = x \<or> m \<in> set ys" by blast
  with Cons kx show ?thesis by (auto simp: py_min_def)
qed

lemma min_loop_first:
  assumes "\<forall>x\<in>set xs. key x = Inr (k x)"
  shows "\<exists>m. min_loop key best kb xs = Inr m
     \<and> ((m = best \<and> (\<forall>x\<in>set xs. kb \<le> k x))
        \<or> (\<exists>pre post. xs = pre @ m # post \<and> k m < kb
              \<and> (\<forall>x\<in>set pre. k m < k x) \<and> (\<forall>x\<in>set post. k m \<le> k x)))"
  using assms
proof (induction xs arbitrary: best kb)
  case Nil
  then show ?case by simp
next
  case (Cons x xs)
  from Cons.prems have kx: "key x = Inr (k x)" and rest: "\<forall>y\<in>set xs. key y = Inr (k y)"
    by simp_all
  show ?case
  proof (cases "k x < kb")
    case True
    from Cons.IH[OF rest, of x "k x"] obtain m where
      m: "min_loop key x (k x) xs = Inr m"
      and d: "(m = x \<and> (\<forall>y\<in>set xs. k x \<le> k y))
        \<or> (\<exists>pre post. xs = pre @ m # post \<and> k m < k x
              \<and> (\<forall>y\<in>set pre. k m < k y) \<and> (\<forall>y\<in>set post. k m \<le> k y))"
      by blast
    from d show ?thesis
    proof
      assume a: "m = x \<and> (\<forall>y\<in>set xs. k x \<le> k y)"
      then have "x # xs = [] @ m # xs \<and> k m < kb \<and> (\<forall>y\<in>set []. k m < k y)
          \<and> (\<forall>y\<in>set xs. k m \<le> k y)"
        using True by simp
      then have "\<exists>pre post. x # xs = pre @ m # post \<and> k m < kb
          \<and> (\<forall>y\<in>set pre. k m < k y) \<and> (\<forall>y\<in>set post. k m \<le> k y)"
        by blast
      with m kx True show ?thesis by simp
    next
      assume "\<exists>pre post. xs = pre @ m # post \<and> k m < k x
              \<and> (\<forall>y\<in>set pre. k m < k y) \<and> (\<forall>y\<in>set post. k m \<le> k y)"
      then obtain pre post where p: "xs = pre @ m # post" "k m < k x"
        "\<forall>y\<in>set pre. k m < k y" "\<forall>y\<in>set post. k m \<le> k y"
        by blast
      then have "x # xs = (x # pre) @ m # post \<and> k m < kb \<and> (\<forall>y\<in>set (x # pre). k m < k y)
          \<and> (\<forall>y\<in>set post. k m \<le> k y)"
        using True by auto
      then have "\<exists>pre post. x # xs = pre @ m # post \<and> k m < kb
          \<and> (\<forall>y\<in>set pre. k m < k y) \<and> (\<forall>y\<in>set post. k m \<le> k y)"
        by blast
      with m kx True show ?thesis by simp
    qed
  next
    case False
    from Cons.IH[OF rest, of best kb] obtain m where
      m: "min_loop key best kb xs = Inr m"
      and d: "(m = best \<and> (\<forall>y\<in>set xs. kb \<le> k y))
        \<or> (\<exists>pre post. xs = pre @ m # post \<and> k m < kb
              \<and> (\<forall>y\<in>set pre. k m < k y) \<and> (\<forall>y\<in>set post. k m \<le> k y))"
      by blast
    from d show ?thesis
    proof
      assume "m = best \<and> (\<forall>y\<in>set xs. kb \<le> k y)"
      with False m kx show ?thesis by auto
    next
      assume "\<exists>pre post. xs = pre @ m # post \<and> k m < kb
              \<and> (\<forall>y\<in>set pre. k m < k y) \<and> (\<forall>y\<in>set post. k m \<le> k y)"
      then obtain pre post where p: "xs = pre @ m # post" "k m < kb"
        "\<forall>y\<in>set pre. k m < k y" "\<forall>y\<in>set post. k m \<le> k y"
        by blast
      then have "x # xs = (x # pre) @ m # post \<and> k m < kb \<and> (\<forall>y\<in>set (x # pre). k m < k y)
          \<and> (\<forall>y\<in>set post. k m \<le> k y)"
        using False by auto
      then have "\<exists>pre post. x # xs = pre @ m # post \<and> k m < kb
          \<and> (\<forall>y\<in>set pre. k m < k y) \<and> (\<forall>y\<in>set post. k m \<le> k y)"
        by blast
      with m kx False show ?thesis by simp
    qed
  qed
qed

lemma py_min_first:
  assumes "xs \<noteq> []" and "\<forall>x\<in>set xs. key x = Inr (k x)"
  shows "\<exists>pre m post. xs = pre @ m # post \<and> py_min key xs = Inr m
     \<and> (\<forall>x\<in>set pre. k m < k x) \<and> (\<forall>x\<in>set post. k m \<le> k x)"
proof (cases xs)
  case Nil
  with assms(1) show ?thesis by simp
next
  case (Cons x ys)
  with assms(2) have kx: "key x = Inr (k x)" and rest: "\<forall>y\<in>set ys. key y = Inr (k y)"
    by simp_all
  from min_loop_first[OF rest, of x "k x"] obtain m where
    m: "min_loop key x (k x) ys = Inr m"
    and d: "(m = x \<and> (\<forall>y\<in>set ys. k x \<le> k y))
      \<or> (\<exists>pre post. ys = pre @ m # post \<and> k m < k x
            \<and> (\<forall>y\<in>set pre. k m < k y) \<and> (\<forall>y\<in>set post. k m \<le> k y))"
    by blast
  have pm: "py_min key xs = Inr m"
    using Cons kx m by (simp add: py_min_def)
  from d show ?thesis
  proof
    assume "m = x \<and> (\<forall>y\<in>set ys. k x \<le> k y)"
    then have "xs = [] @ m # ys \<and> py_min key xs = Inr m
       \<and> (\<forall>y\<in>set []. k m < k y) \<and> (\<forall>y\<in>set ys. k m \<le> k y)"
      using Cons pm by simp
    then show ?thesis by blast
  next
    assume "\<exists>pre post. ys = pre @ m # post \<and> k m < k x
            \<and> (\<forall>y\<in>set pre. k m < k y) \<and> (\<forall>y\<in>set post. k m \<le> k y)"
    then obtain pre post where p: "ys = pre @ m # post" "k m < k x"
        "\<forall>y\<in>set pre. k m < k y" "\<forall>y\<in>set post. k m \<le> k y"
      by blast
    then have "xs = (x # pre) @ m # post \<and> py_min key xs = Inr m
       \<and> (\<forall>y\<in>set (x # pre). k m < k y) \<and> (\<forall>y\<in>set post. k m \<le> k y)"
      using Cons pm by auto
    then show ?thesis by blast
  qed
qed

section \<open>Association lists as dicts\<close>

lemma has_key_iff: "has_key d k \<longleftrightarrow> k \<in> fst ` set d"
  by (simp add: has_key_def map_of_eq_None_iff)

lemma length_delete_less:
  "k \<in> set (map fst al) \<Longrightarrow> length (AList.delete k al) < length al"
proof (induction al)
  case Nil
  then show ?case by simp
next
  case (Cons p ps)
  show ?case
  proof (cases "fst p = k")
    case True
    have "length (AList.delete k ps) \<le> length ps" by (rule length_delete_le)
    with True show ?thesis by simp
  next
    case False
    with Cons.prems have "k \<in> set (map fst ps)" by auto
    from Cons.IH[OF this] False show ?thesis by simp
  qed
qed

lemma length_update:
  "length (AList.update k v al) = (if k \<in> set (map fst al) then length al else Suc (length al))"
  using update_keys[of k v al] by (metis length_append_singleton length_map)

lemma keys_delete: "fst ` set (AList.delete k al) = fst ` set al - {k}"
  by (induction al) auto




section \<open>The loader keeps its state well-formed\<close>

lemma loader_inv_new: "loader_inv (new_loader cap clk)"
  by (simp add: loader_inv_def new_loader_def)

lemma loader_inv_register:
  assumes "loader_inv ld"
  shows "loader_inv (register_algorithm ld aid f md)"
  using assms
  by (auto simp: loader_inv_def register_algorithm_def update_keys distinct_update)

lemma update_access_stats_fields:
  "algorithm_cache (update_access_stats ld aid) = algorithm_cache ld"
  "algorithm_registry (update_access_stats ld aid) = algorithm_registry ld"
  "max_cache_size (update_access_stats ld aid) = max_cache_size ld"
  "clock (update_access_stats ld aid) = clock ld"
  "fresh (update_access_stats ld aid) = fresh ld"
  "map fst (algorithm_metadata (update_access_stats ld aid)) = map fst (algorithm_metadata ld)"
  by (auto simp: update_access_stats_def Let_def update_keys map_of_eq_None_iff
      split: option.splits dest!: map_of_SomeD intro: rev_image_eqI)

lemma loader_inv_update_access_stats:
  "loader_inv ld \<Longrightarrow> loader_inv (update_access_stats ld aid)"
  by (simp add: loader_inv_def update_access_stats_fields)

lemma update_access_stats_metadata:
  assumes "map_of (algorithm_metadata ld) aid = Some md"
  shows "map_of (algorithm_metadata (update_access_stats ld aid)) aid
     = Some (md \<lparr> last_used := clock ld (ticks ld), usage_count := usage_count md + 1 \<rparr>)"
  using assms by (simp add: update_access_stats_def Let_def update_conv')

lemma evict_spec:
  assumes inv: "loader_inv ld" and ne: "algorithm_cache ld \<noteq> []"
  shows "\<exists>pre k md post.
      algorithm_metadata ld = pre @ (k, md) # post
    \<and> has_key (algorithm_cache ld) k
    \<and> evict_least_used ld = Inr (ld \<lparr> algorithm_cache := AList.delete k (algorithm_cache ld) \<rparr>)
    \<and> (\<forall>x\<in>set pre. has_key (algorithm_cache ld) (fst x) \<longrightarrow> last_used md < last_used (snd x))
    \<and> (\<forall>x\<in>set post. has_key (algorithm_cache ld) (fst x) \<longrightarrow> last_used md \<le> last_used (snd x))"
proof -
  define ek where "ek = (\<lambda>x :: string \<times> AlgorithmMetadata.
     if has_key (algorithm_cache ld) (fst x) then Fin (last_used (snd x)) else PosInf)"
  have keys: "\<forall>x\<in>set (algorithm_metadata ld). eviction_key ld x = Inr (ek x)"
    by (simp add: eviction_key_def ek_def)
  from ne obtain c where c: "c \<in> set (map fst (algorithm_cache ld))"
    by (cases "algorithm_cache ld") auto
  with inv have "c \<in> set (map fst (algorithm_metadata ld))"
    by (auto simp: loader_inv_def)
  then obtain cmd where cmd: "(c, cmd) \<in> set (algorithm_metadata ld)"
    by auto
  then have mne: "algorithm_metadata ld \<noteq> []" by auto
  from py_min_first[OF mne keys] obtain pre m post where
    split: "algorithm_metadata ld = pre @ m # post"
    and pm: "py_min (eviction_key ld) (algorithm_metadata ld) = Inr m"
    and before: "\<forall>x\<in>set pre. ek m < ek x"
    and after: "\<forall>x\<in>set post. ek m \<le> ek x"
    by blast
  have le_all: "ek m \<le> ek x" if "x \<in> set (algorithm_metadata ld)" for x
    using that split before after by auto
  have "ek (c, cmd) = Fin (last_used cmd)"
    using c by (simp add: ek_def has_key_iff)
  with le_all[OF cmd] have "ek m \<le> Fin (last_used cmd)" by simp
  then have cached: "has_key (algorithm_cache ld) (fst m)"
    by (auto simp: ek_def split: if_splits)
  then have ekm: "ek m = Fin (last_used (snd m))" by (simp add: ek_def)
  have b: "\<forall>x\<in>set pre. has_key (algorithm_cache ld) (fst x) \<longrightarrow> last_used (snd m) < last_used (snd x)"
  proof (intro ballI impI)
    fix x assume "x \<in> set pre" "has_key (algorithm_cache ld) (fst x)"
    with before ekm show "last_used (snd m) < last_used (snd x)"
      by (auto simp: ek_def less_pyfloat_def dest!: bspec)
  qed
  have a: "\<forall>x\<in>set post. has_key (algorithm_cache ld) (fst x) \<longrightarrow> last_used (snd m) \<le> last_used (snd x)"
  proof (intro ballI impI)
    fix x assume "x \<in> set post" "has_key (algorithm_cache ld) (fst x)"
    with after ekm show "last_used (snd m) \<le> last_used (snd x)"
      by (auto simp: ek_def dest!: bspec)
  qed
  have ev: "evict_least_used ld
      = Inr (ld \<lparr> algorithm_cache := AList.delete (fst m) (algorithm_cache ld) \<rparr>)"
    using ne pm cached by (simp add: evict_least_used_def Let_def)
  from split have "algorithm_metadata ld = pre @ (fst m, snd m) # post" by simp
  with cached ev a b show ?thesis by blast
qed

lemma oldest_cached_of_split:
  assumes inv: "loader_inv ld"
    and split: "algorithm_metadata ld = pre @ (k, md) # post"
    and cached: "has_key (algorithm_cache ld) k"
    and before: "\<forall>x\<in>set pre. has_key (algorithm_cache ld) (fst x) \<longrightarrow> last_used md < last_used (snd x)"
    and after: "\<forall>x\<in>set post. has_key (algorithm_cache ld) (fst x) \<longrightarrow> last_used md \<le> last_used (snd x)"
  shows "oldest_cached ld k"
proof -
  from inv have "distinct (map fst (algorithm_metadata ld))"
    by (simp add: loader_inv_def)
  moreover from split have "(k, md) \<in> set (algorithm_metadata ld)" by simp
  ultimately have m: "map_of (algorithm_metadata ld) k = Some md"
    by simp
  have "list_all (\<lambda>x. has_key (algorithm_cache ld) (fst x) \<longrightarrow> last_used md \<le> last_used (snd x))
          (algorithm_metadata ld)"
    using before after by (auto simp: split list_all_iff less_imp_le)
  with m cached show ?thesis by (auto simp: oldest_cached_def)
qed

lemma room_spec:
  assumes inv: "loader_inv ld"
  shows "\<exists>ld1. (if int (length (algorithm_cache ld)) \<ge> max_cache_size ld
                 then evict_least_used ld else Inr ld) = Inr ld1
     \<and> ((ld1 = ld \<and> (algorithm_cache ld = [] \<or> int (length (algorithm_cache ld)) < max_cache_size ld))
        \<or> (\<exists>k. oldest_cached ld k \<and> max_cache_size ld \<le> int (length (algorithm_cache ld))
              \<and> ld1 = ld \<lparr> algorithm_cache := AList.delete k (algorithm_cache ld) \<rparr>))"
proof (cases "int (length (algorithm_cache ld)) \<ge> max_cache_size ld")
  case False
  then show ?thesis by simp
next
  case full: True
  show ?thesis
  proof (cases "algorithm_cache ld = []")
    case True
    with full show ?thesis by (simp add: evict_least_used_def)
  next
    case False
    from evict_spec[OF inv False] obtain pre k md post where
      split: "algorithm_metadata ld = pre @ (k, md) # post"
      and cached: "has_key (algorithm_cache ld) k"
      and ev: "evict_least_used ld = Inr (ld \<lparr> algorithm_cache := AList.delete k (algorithm_cache ld) \<rparr>)"
      and before: "\<forall>x\<in>set pre. has_key (algorithm_cache ld) (fst x) \<longrightarrow> last_used md < last_used (snd x)"
      and after: "\<forall>x\<in>set post. has_key (algorithm_cache ld) (fst x) \<longrightarrow> last_used md \<le> last_used (snd x)"
      by blast
    have "oldest_cached ld k"
      by (rule oldest_cached_of_split[OF inv split cached before after])
    with full ev show ?thesis by auto
  qed
qed

lemma loader_inv_delete:
  assumes "loader_inv ld"
  shows "loader_inv (ld \<lparr> algorithm_cache := AList.delete k (algorithm_cache ld) \<rparr>)"
  using assms dom_delete_subset[of k "algorithm_cache ld"]
  by (auto simp: loader_inv_def distinct_delete)

lemma loader_inv_cache_update:
  assumes "loader_inv ld" and "has_key (algorithm_registry ld) aid"
  shows "loader_inv (ld \<lparr> algorithm_cache := AList.update aid v (algorithm_cache ld), fresh := n \<rparr>)"
    and "loader_inv (ld \<lparr> algorithm_cache := AList.update aid v (algorithm_cache ld) \<rparr>)"
proof -
  from assms(1) have "fst ` set (algorithm_registry ld) = fst ` set (algorithm_metadata ld)"
    unfolding loader_inv_def by (metis set_map)
  with assms(2) have m: "aid \<in> fst ` set (algorithm_metadata ld)"
    by (simp add: has_key_iff)
  from assms(1) m
  show "loader_inv (ld \<lparr> algorithm_cache := AList.update aid v (algorithm_cache ld), fresh := n \<rparr>)"
    by (auto simp: loader_inv_def distinct_update dom_update)
  from assms(1) m
  show "loader_inv (ld \<lparr> algorithm_cache := AList.update aid v (algorithm_cache ld) \<rparr>)"
    by (auto simp: loader_inv_def distinct_update dom_update)
qed

lemma room_props:
  assumes inv: "loader_inv ld"
  shows "\<exists>ld1. (if int (length (algorithm_cache ld)) \<ge> max_cache_size ld
                 then evict_least_used ld else Inr ld) = Inr ld1
     \<and> loader_inv ld1
     \<and> max_cache_size ld1 = max_cache_size ld
     \<and> algorithm_registry ld1 = algorithm_registry ld
     \<and> algorithm_metadata ld1 = algorithm_metadata ld
     \<and> fresh ld1 = fresh ld
     \<and> int (length (algorithm_cache ld1)) < max 1 (max_cache_size ld)
           + (if int (length (algorithm_cache ld)) \<le> max 1 (max_cache_size ld) then 0 else
               int (length (algorithm_cache ld)))
     \<and> (\<forall>k. has_key (algorithm_cache ld1) k \<longrightarrow> has_key (algorithm_cache ld) k)
     \<and> (\<forall>k. has_key (algorithm_cache ld) k \<and> \<not> has_key (algorithm_cache ld1) k
           \<longrightarrow> oldest_cached ld k)"
proof -
  from room_spec[OF inv] obtain ld1 where
    r: "(if int (length (algorithm_cache ld)) \<ge> max_cache_size ld
          then evict_least_used ld else Inr ld) = Inr ld1"
    and d: "(ld1 = ld \<and> (algorithm_cache ld = [] \<or> int (length (algorithm_cache ld)) < max_cache_size ld))
        \<or> (\<exists>k. oldest_cached ld k \<and> max_cache_size ld \<le> int (length (algorithm_cache ld))
              \<and> ld1 = ld \<lparr> algorithm_cache := AList.delete k (algorithm_cache ld) \<rparr>)"
    by blast
  from d show ?thesis
  proof
    assume a: "ld1 = ld \<and> (algorithm_cache ld = [] \<or> int (length (algorithm_cache ld)) < max_cache_size ld)"
    then have "int (length (algorithm_cache ld1)) < max 1 (max_cache_size ld)
           + (if int (length (algorithm_cache ld)) \<le> max 1 (max_cache_size ld) then 0 else
               int (length (algorithm_cache ld)))"
      by auto
    with a r inv show ?thesis by auto
  next
    assume "\<exists>k. oldest_cached ld k \<and> max_cache_size ld \<le> int (length (algorithm_cache ld))
              \<and> ld1 = ld \<lparr> algorithm_cache := AList.delete k (algorithm_cache ld) \<rparr>"
    then obtain k where old: "oldest_cached ld k"
      and ld1: "ld1 = ld \<lparr> algorithm_cache := AList.delete k (algorithm_cache ld) \<rparr>"
      by blast
    from old have "k \<in> set (map fst (algorithm_cache ld))"
      by (simp add: oldest_cached_def has_key_iff)
    then have "length (AList.delete k (algorithm_cache ld)) < length (algorithm_cache ld)"
      by (rule length_delete_less)
    then have len: "int (length (algorithm_cache ld1)) < max 1 (max_cache_size ld)
           + (if int (length (algorithm_cache ld)) \<le> max 1 (max_cache_size ld) then 0 else
               int (length (algorithm_cache ld)))"
      by (auto simp: ld1)
    have sub: "\<forall>k'. has_key (algorithm_cache ld1) k' \<longrightarrow> has_key (algorithm_cache ld) k'"
      by (auto simp: ld1 has_key_iff keys_delete)
    have gone: "\<forall>k'. has_key (algorithm_cache ld) k' \<and> \<not> has_key (algorithm_cache ld1) k'
           \<longrightarrow> oldest_cached ld k'"
      using old by (auto simp: ld1 has_key_iff keys_delete)
    from loader_inv_delete[OF inv, of k] have "loader_inv ld1"
      by (simp add: ld1)
    with r len sub gone show ?thesis by (simp add: ld1)
  qed
qed

lemma load_cached:
  "map_of (algorithm_cache ld) aid = Some c
     \<Longrightarrow> load_algorithm ld aid = Inr (c, update_access_stats ld aid)"
  by (simp add: load_algorithm_def)

lemma load_unregistered:
  "map_of (algorithm_cache ld) aid = None \<Longrightarrow> map_of (algorithm_registry ld) aid = None
     \<Longrightarrow> load_algorithm ld aid = Inr (PyNone, ld)"
  by (simp add: load_algorithm_def)

lemma load_uncached:
  assumes "map_of (algorithm_cache ld) aid = None"
    and "map_of (algorithm_registry ld) aid = Some f"
    and "(if int (length (algorithm_cache ld)) \<ge> max_cache_size ld
          then evict_least_used ld else Inr ld) = Inr ld1"
  shows "load_algorithm ld aid =
     Inr (case f of
            Raises e \<Rightarrow> (PyNone, ld1)
          | ReturnsNone \<Rightarrow>
              (PyNone,
               update_access_stats
                 (ld1 \<lparr> algorithm_cache := AList.update aid PyNone (algorithm_cache ld1) \<rparr>) aid)
          | Constructs s \<Rightarrow>
              (Obj (fresh ld1) s,
               update_access_stats
                 (ld1 \<lparr> algorithm_cache := AList.update aid (Obj (fresh ld1) s) (algorithm_cache ld1),
                        fresh := Suc (fresh ld1) \<rparr>) aid))"
  using assms by (simp add: load_algorithm_def Let_def split: factory.splits)

lemma load_spec:
  assumes inv: "loader_inv ld"
  shows "\<exists>r ld'. load_algorithm ld aid = Inr (r, ld') \<and> loader_inv ld'
     \<and> max_cache_size ld' = max_cache_size ld
     \<and> (int (length (algorithm_cache ld)) \<le> max 1 (max_cache_size ld)
          \<longrightarrow> int (length (algorithm_cache ld')) \<le> max 1 (max_cache_size ld))
     \<and> (\<forall>k. has_key (algorithm_cache ld) k \<and> \<not> has_key (algorithm_cache ld') k
           \<longrightarrow> oldest_cached ld k)"
proof (cases "map_of (algorithm_cache ld) aid")
  case (Some c)
  from load_cached[OF Some] loader_inv_update_access_stats[OF inv, of aid]
  show ?thesis by (simp add: update_access_stats_fields)
next
  case None
  show ?thesis
  proof (cases "map_of (algorithm_registry ld) aid")
    case nr: None
    from load_unregistered[OF None nr] inv show ?thesis by simp
  next
    case (Some f)
    from room_props[OF inv] obtain ld1 where
      r: "(if int (length (algorithm_cache ld)) \<ge> max_cache_size ld
            then evict_least_used ld else Inr ld) = Inr ld1"
      and inv1: "loader_inv ld1"
      and cap1: "max_cache_size ld1 = max_cache_size ld"
      and reg1: "algorithm_registry ld1 = algorithm_registry ld"
      and len1: "int (length (algorithm_cache ld1)) < max 1 (max_cache_size ld)
           + (if int (length (algorithm_cache ld)) \<le> max 1 (max_cache_size ld) then 0 else
               int (length (algorithm_cache ld)))"
      and gone: "\<forall>k. has_key (algorithm_cache ld) k \<and> \<not> has_key (algorithm_cache ld1) k
           \<longrightarrow> oldest_cached ld k"
      by blast
    from Some reg1 have hk: "has_key (algorithm_registry ld1) aid"
      by (simp add: has_key_def)
    note l = load_uncached[OF None Some r]
    show ?thesis
    proof (cases f)
      case (Raises e)
      with l inv1 cap1 len1 gone show ?thesis by (auto split: if_splits)
    next
      case ReturnsNone
      let ?ld2 = "ld1 \<lparr> algorithm_cache := AList.update aid PyNone (algorithm_cache ld1) \<rparr>"
      have i2: "loader_inv (update_access_stats ?ld2 aid)"
        by (rule loader_inv_update_access_stats) (rule loader_inv_cache_update(2)[OF inv1 hk])
      have len2: "int (length (algorithm_cache ld)) \<le> max 1 (max_cache_size ld)
          \<longrightarrow> int (length (algorithm_cache ?ld2)) \<le> max 1 (max_cache_size ld)"
        using len1 by (auto simp: length_update split: if_splits)
      have gone2: "\<forall>k. has_key (algorithm_cache ld) k \<and> \<not> has_key (algorithm_cache ?ld2) k
           \<longrightarrow> oldest_cached ld k"
        using gone by (auto simp: has_key_iff dom_update)
      from l ReturnsNone i2 cap1 len2 gone2 show ?thesis
        by (simp add: update_access_stats_fields)
    next
      case (Constructs s)
      let ?ld2 = "ld1 \<lparr> algorithm_cache := AList.update aid (Obj (fresh ld1) s) (algorithm_cache ld1),
                        fresh := Suc (fresh ld1) \<rparr>"
      have i2: "loader_inv (update_access_stats ?ld2 aid)"
        by (rule loader_inv_update_access_stats) (rule loader_inv_cache_update(1)[OF inv1 hk])
      have len2: "int (length (algorithm_cache ld)) \<le> max 1 (max_cache_size ld)
          \<longrightarrow> int (length (algorithm_cache ?ld2)) \<le> max 1 (max_cache_size ld)"
        using len1 by (auto simp: length_update split: if_splits)
      have gone2: "\<forall>k. has_key (algorithm_cache ld) k \<and> \<not> has_key (algorithm_cache ?ld2) k
           \<longrightarrow> oldest_cached ld k"
        using gone by (auto simp: has_key_iff dom_update)
      from l Constructs i2 cap1 len2 gone2 show ?thesis
        by (simp add: update_access_stats_fields)
    qed
  qed
qed


lemma run_ops_spec:
  assumes "loader_inv ld" and "int (length (algorithm_cache ld)) \<le> max 1 (max_cache_size ld)"
  shows "\<exists>ld'. run_ops ld ops = Inr ld' \<and> loader_inv ld'
     \<and> max_cache_size ld' = max_cache_size ld
     \<and> int (length (algorithm_cache ld')) \<le> max 1 (max_cache_size ld)"
  using assms
proof (induction ops arbitrary: ld)
  case Nil
  then show ?case by simp
next
  case (Cons opn ops)
  show ?case
  proof (cases opn)
    case (Register aid f md)
    let ?ld1 = "register_algorithm ld aid f md"
    have i1: "loader_inv ?ld1" by (rule loader_inv_register[OF Cons.prems(1)])
    have c1: "algorithm_cache ?ld1 = algorithm_cache ld" "max_cache_size ?ld1 = max_cache_size ld"
      by (simp_all add: register_algorithm_def)
    from Cons.prems(2) c1
    have "int (length (algorithm_cache ?ld1)) \<le> max 1 (max_cache_size ?ld1)" by simp
    from Cons.IH[OF i1 this] Register c1 show ?thesis by simp
  next
    case (Load aid)
    from load_spec[OF Cons.prems(1), of aid] Cons.prems(2) obtain r ld1 where
      l: "load_algorithm ld aid = Inr (r, ld1)" and i1: "loader_inv ld1"
      and c1: "max_cache_size ld1 = max_cache_size ld"
      and n1: "int (length (algorithm_cache ld1)) \<le> max 1 (max_cache_size ld)"
      by blast
    from n1 c1 have "int (length (algorithm_cache ld1)) \<le> max 1 (max_cache_size ld1)" by simp
    from Cons.IH[OF i1 this] Load l c1 show ?thesis by simp
  qed
qed

lemma reachable_spec:
  "\<exists>ld. run_ops (new_loader cap clk) ops = Inr ld \<and> loader_inv ld
     \<and> max_cache_size ld = cap \<and> int (length (algorithm_cache ld)) \<le> max 1 cap"
  using run_ops_spec[OF loader_inv_new, of cap clk ops]
  by (simp add: new_loader_def)

lemma reachable_inv:
  "run_ops (new_loader cap clk) ops = Inr ld \<Longrightarrow> loader_inv ld"
  using reachable_spec[of cap clk ops] by auto

lemma registered_has_metadata:
  assumes "loader_inv ld" and "map_of (algorithm_registry ld) aid = Some f"
  shows "\<exists>md. map_of (algorithm_metadata ld) aid = Some md"
proof -
  from assms(1) have "fst ` set (algorithm_registry ld) = fst ` set (algorithm_metadata ld)"
    unfolding loader_inv_def by (metis set_map)
  moreover from assms(2) have "aid \<in> fst ` set (algorithm_registry ld)"
    by (metis has_key_def has_key_iff option.distinct(1))
  ultimately have "has_key (algorithm_metadata ld) aid"
    by (simp add: has_key_iff)
  then show ?thesis by (simp add: has_key_def)
qed

lemma cached_is_registered:
  assumes "loader_inv ld" and "map_of (algorithm_registry ld) aid = None"
  shows "map_of (algorithm_cache ld) aid = None"
proof -
  from assms(1) have "fst ` set (algorithm_registry ld) = fst ` set (algorithm_metadata ld)"
    unfolding loader_inv_def by (metis set_map)
  moreover from assms(2) have "aid \<notin> fst ` set (algorithm_registry ld)"
    by (simp add: map_of_eq_None_iff)
  moreover from assms(1) have "fst ` set (algorithm_cache ld) \<subseteq> fst ` set (algorithm_metadata ld)"
    by (simp add: loader_inv_def)
  ultimately have "aid \<notin> fst ` set (algorithm_cache ld)" by blast
  then show ?thesis by (simp add: map_of_eq_None_iff)
qed

lemma load_raising_factory:
  assumes inv: "loader_inv ld"
    and nc: "map_of (algorithm_cache ld) aid = None"
    and reg: "map_of (algorithm_registry ld) aid = Some (Raises e)"
  shows "\<exists>ld'. load_algorithm ld aid = Inr (PyNone, ld') \<and> loader_inv ld'
     \<and> map_of (algorithm_cache ld') aid = None
     \<and> algorithm_registry ld' = algorithm_registry ld
     \<and> algorithm_metadata ld' = algorithm_metadata ld
     \<and> fresh ld' = fresh ld"
proof -
  from room_props[OF inv] obtain ld1 where
    r: "(if int (length (algorithm_cache ld)) \<ge> max_cache_size ld
          then evict_least_used ld else Inr ld) = Inr ld1"
    and inv1: "loader_inv ld1"
    and reg1: "algorithm_registry ld1 = algorithm_registry ld"
    and md1: "algorithm_metadata ld1 = algorithm_metadata ld"
    and fr1: "fresh ld1 = fresh ld"
    and sub: "\<forall>k. has_key (algorithm_cache ld1) k \<longrightarrow> has_key (algorithm_cache ld) k"
    by blast
  from sub nc have "map_of (algorithm_cache ld1) aid = None"
    by (auto simp: has_key_def)
  with load_uncached[OF nc reg r] inv1 reg1 md1 fr1 show ?thesis by simp
qed

lemma load_constructing_factory:
  assumes inv: "loader_inv ld"
    and nc: "map_of (algorithm_cache ld) aid = None"
    and reg: "map_of (algorithm_registry ld) aid = Some (Constructs s)"
  shows "\<exists>ld'. load_algorithm ld aid = Inr (Obj (fresh ld) s, ld')
     \<and> map_of (algorithm_cache ld') aid = Some (Obj (fresh ld) s)"
proof -
  from room_props[OF inv] obtain ld1 where
    r: "(if int (length (algorithm_cache ld)) \<ge> max_cache_size ld
          then evict_least_used ld else Inr ld) = Inr ld1"
    and fr1: "fresh ld1 = fresh ld"
    by blast
  from load_uncached[OF nc reg r] fr1 show ?thesis
    by (simp add: update_access_stats_fields update_conv')
qed

lemma load_hit:
  assumes c: "map_of (algorithm_cache l) aid = Some c"
    and m: "use_count l aid = Some n"
  shows "load_algorithm l aid = Inr (c, update_access_stats l aid)
     \<and> map_of (algorithm_cache (update_access_stats l aid)) aid = Some c
     \<and> fresh (update_access_stats l aid) = fresh l
     \<and> use_count (update_access_stats l aid) aid = Some (n + 1)"
proof -
  from m obtain md where md: "map_of (algorithm_metadata l) aid = Some md" "usage_count md = n"
    by (auto simp: use_count_def)
  from update_access_stats_metadata[OF md(1)] md(2)
  have "use_count (update_access_stats l aid) aid = Some (n + 1)"
    by (simp add: use_count_def)
  with load_cached[OF c] c show ?thesis
    by (simp add: update_access_stats_fields)
qed

lemma load_miss_caches:
  assumes inv: "loader_inv ld"
    and nc: "map_of (algorithm_cache ld) aid = None"
    and reg: "map_of (algorithm_registry ld) aid = Some f"
    and ok: "\<forall>e. f \<noteq> Raises e"
    and m: "use_count ld aid = Some n"
  shows "\<exists>r ld1. load_algorithm ld aid = Inr (r, ld1)
     \<and> map_of (algorithm_cache ld1) aid = Some r
     \<and> use_count ld1 aid = Some (n + 1)"
proof -
  from room_props[OF inv] obtain ldr where
    r: "(if int (length (algorithm_cache ld)) \<ge> max_cache_size ld
          then evict_least_used ld else Inr ld) = Inr ldr"
    and mdr: "algorithm_metadata ldr = algorithm_metadata ld"
    by blast
  have step: "use_count (update_access_stats (ldr \<lparr> algorithm_cache := c, fresh := k \<rparr>) aid) aid
       = Some (n + 1)"
     "use_count (update_access_stats (ldr \<lparr> algorithm_cache := c \<rparr>) aid) aid = Some (n + 1)" for c k
  proof -
    from m mdr obtain md where md: "map_of (algorithm_metadata ldr) aid = Some md" "usage_count md = n"
      by (auto simp: use_count_def)
    from md have "map_of (algorithm_metadata (ldr \<lparr> algorithm_cache := c, fresh := k \<rparr>)) aid = Some md"
      by simp
    from update_access_stats_metadata[OF this] md(2)
    show "use_count (update_access_stats (ldr \<lparr> algorithm_cache := c, fresh := k \<rparr>) aid) aid
       = Some (n + 1)"
      by (simp add: use_count_def)
    from md have "map_of (algorithm_metadata (ldr \<lparr> algorithm_cache := c \<rparr>)) aid = Some md"
      by simp
    from update_access_stats_metadata[OF this] md(2)
    show "use_count (update_access_stats (ldr \<lparr> algorithm_cache := c \<rparr>) aid) aid = Some (n + 1)"
      by (simp add: use_count_def)
  qed
  note l = load_uncached[OF nc reg r]
  show ?thesis
  proof (cases f)
    case (Raises e)
    with ok show ?thesis by simp
  next
    case ReturnsNone
    with l step(2) show ?thesis
      by (simp add: update_access_stats_fields update_conv')
  next
    case (Constructs s)
    with l step(1) show ?thesis
      by (simp add: update_access_stats_fields update_conv')
  qed
qed

lemma register_keeps_table_order:
  "map fst (algorithm_metadata (register_algorithm ld aid f md))
     = (if has_key (algorithm_metadata ld) aid then map fst (algorithm_metadata ld)
        else map fst (algorithm_metadata ld) @ [aid])"
  by (simp add: register_algorithm_def update_keys has_key_iff)

lemma load_keeps_table_order:
  assumes "loader_inv ld" and "load_algorithm ld aid = Inr (r, ld')"
  shows "map fst (algorithm_metadata ld') = map fst (algorithm_metadata ld)"
proof (cases "map_of (algorithm_cache ld) aid")
  case (Some c)
  from load_cached[OF Some] assms(2) show ?thesis
    by (auto simp: update_access_stats_fields)
next
  case None
  show ?thesis
  proof (cases "map_of (algorithm_registry ld) aid")
    case nr: None
    from load_unregistered[OF None nr] assms(2) show ?thesis by simp
  next
    case (Some f)
    from room_props[OF assms(1)] obtain ld1 where
      r: "(if int (length (algorithm_cache ld)) \<ge> max_cache_size ld
            then evict_least_used ld else Inr ld) = Inr ld1"
      and m: "algorithm_metadata ld1 = algorithm_metadata ld"
      by blast
    from load_uncached[OF None Some r] assms(2) m show ?thesis
      by (cases f) (auto simp: update_access_stats_fields)
  qed
qed

section \<open>Cascades and compound groups\<close>













section \<open>The task queue and the monitor\<close>







lemma monitor_resources_snoc:
  "running orch \<Longrightarrow>
     monitor_resources orch (samples @ [ps]) = monitor_step (monitor_resources orch samples) ps
     \<and> running (monitor_resources orch samples)"
proof (induction samples arbitrary: orch)
  case Nil
  then show ?case by simp
next
  case (Cons s samples)
  from Cons.prems have "running (monitor_step orch s)"
    by (simp add: monitor_step_def Let_def)
  from Cons.IH[OF this] Cons.prems show ?case by simp
qed

lemma selection_key_cases:
  "selection_key x = Inl e \<longleftrightarrow> (max_capacity (snd x) = 0 \<and> e = ZeroDivisionError)"
  by (auto simp: selection_key_def)

section \<open>Evaluation of the example states\<close>

lemmas loader_eval = new_loader_def register_algorithm_def load_algorithm_def update_access_stats_def
  evict_least_used_def eviction_key_def py_min_def has_key_def deque_append_def Let_def
  new_metadata_def frozen_clock_def ticking_clock_def cached_ids_def use_count_def last_used_of_def
  less_pyfloat_def demo_md_def tie_ops_def lru_ops_def broken_ops_def double_ops_def abc_ops_def


lemma lru_run: "run_ops (new_loader 2 ticking_clock) lru_ops = Inr lru_state"
  by (simp add: lru_state_def loader_eval)

lemma tie_run: "run_ops (new_loader 2 frozen_clock) tie_ops = Inr tie_state"
  by (simp add: tie_state_def loader_eval)

lemma tie_cache: "algorithm_cache tie_state \<noteq> []"
  by (simp add: tie_state_def loader_eval)

lemma broken_run: "run_ops (new_loader 100 frozen_clock) broken_ops = Inr broken_state"
  by (simp add: broken_state_def loader_eval)

lemma double_run: "run_ops (new_loader 100 ticking_clock) double_ops = Inr double_state"
  by (simp add: double_state_def loader_eval)



section \<open>The claims\<close>





text \<open>
  Claim C3, as stated: after any sequence of registrations and loads the number of
  cached instances never exceeds the configured capacity. It fails for the capacity 0:
  the eviction finds an empty cache and returns, and the load then caches the instance.
\<close>

theorem C3_capacity_zero_cache_holds_one:
  "cached_ids (projr (run_ops (new_loader 0 frozen_clock)
      [Register ''a'' (Constructs Inert) (new_metadata ''a'' PREDICTIVE MEDIUM [] 0), Load ''a'']))
     = [''a'']
   \<and> max_cache_size (projr (run_ops (new_loader 0 frozen_clock)
      [Register ''a'' (Constructs Inert) (new_metadata ''a'' PREDICTIVE MEDIUM [] 0), Load ''a'']))
     = 0"
  by (simp add: loader_eval)

text \<open>
  Claim C3, amended. After any sequence of registrations and loads on a new loader, the
  run has raised nothing, the cache holds every id once, and the number of cached
  instances is at most the larger of the configured capacity and 1 (so at most the
  capacity whenever that is at least 1). A further load returns, and every id it removes
  from the cache was a cached id with the oldest last-used timestamp among the cached
  ids.
\<close>

theorem C3_cache_bounded_evicts_oldest:
  "\<exists>ld. run_ops (new_loader cap clk) ops = Inr ld
     \<and> distinct (cached_ids ld)
     \<and> int (length (cached_ids ld)) \<le> max 1 cap
     \<and> (\<exists>r ld'. load_algorithm ld aid = Inr (r, ld')
          \<and> list_all (\<lambda>k. has_key (algorithm_cache ld') k \<or> oldest_cached ld k) (cached_ids ld))"
proof -
  from reachable_spec[of cap clk ops] obtain ld where
    r: "run_ops (new_loader cap clk) ops = Inr ld" and inv: "loader_inv ld"
    and n: "int (length (algorithm_cache ld)) \<le> max 1 cap"
    by blast
  from load_spec[OF inv, of aid] obtain res ld' where
    l: "load_algorithm ld aid = Inr (res, ld')"
    and g: "\<forall>k. has_key (algorithm_cache ld) k \<and> \<not> has_key (algorithm_cache ld') k
           \<longrightarrow> oldest_cached ld k"
    by blast
  from g have "list_all (\<lambda>k. has_key (algorithm_cache ld') k \<or> oldest_cached ld k) (cached_ids ld)"
    by (auto simp: list_all_iff cached_ids_def has_key_iff)
  with r inv n l show ?thesis
    by (auto simp: loader_inv_def cached_ids_def)
qed

text \<open>
  Capacity 2, a clock that advances: \<open>a\<close> and \<open>b\<close> are cached, \<open>a\<close> was used
  first; loading \<open>c\<close> evicts \<open>a\<close>.
\<close>

theorem C3_cache_bounded_evicts_oldest_witness:
  "cached_ids lru_state = [''a'', ''b'']
   \<and> cached_ids (snd (projr (load_algorithm lru_state ''c''))) = [''b'', ''c'']
   \<and> oldest_cached lru_state ''a''"
  using C3_cache_bounded_evicts_oldest [of 2 ticking_clock lru_ops "''c''"]
  by (simp add: lru_run) (simp add: lru_state_def loader_eval oldest_cached_def)



text \<open>
  Claim C5, as stated: a load of an unregistered id and a load of an id whose factory
  throws fail with two distinguishable errors. It fails: \<^verbatim>\<open>load_algorithm\<close>
  raises in neither case; on a loader where only \<open>broken\<close> is registered, with a
  factory that throws, the load of the unregistered \<open>ghost\<close> and the load of
  \<open>broken\<close> both return \<^verbatim>\<open>None\<close> and leave the same state.
\<close>

theorem C5_failures_indistinguishable:
  "load_algorithm broken_state ''ghost'' = Inr (PyNone, broken_state)
   \<and> load_algorithm broken_state ''broken'' = Inr (PyNone, broken_state)"
  by (simp add: broken_state_def loader_eval)

text \<open>
  Claim C5, amended. On a loader reached from a new one by registrations and loads, the
  load of an id that is not registered returns \<^verbatim>\<open>None\<close> and changes nothing, and
  the load of a registered id that is not cached and whose factory throws returns
  \<^verbatim>\<open>None\<close> as well, without raising. In the second case the id is not cached
  afterwards and the registry is unchanged, so a later load of the id calls the factory
  again: with the same factory it returns \<^verbatim>\<open>None\<close> again, and once the id is
  registered with a factory that constructs an object, it returns a new object and
  caches it.
\<close>

theorem C5_failed_load_returns_none:
  assumes reach: "run_ops (new_loader cap clk) ops = Inr ld"
  shows "(map_of (algorithm_registry ld) aid = None \<longrightarrow> load_algorithm ld aid = Inr (PyNone, ld))
   \<and> (map_of (algorithm_cache ld) aid = None \<and> map_of (algorithm_registry ld) aid = Some (Raises e) \<longrightarrow>
        (\<exists>ld'. load_algorithm ld aid = Inr (PyNone, ld')
            \<and> map_of (algorithm_cache ld') aid = None
            \<and> algorithm_registry ld' = algorithm_registry ld
            \<and> (\<exists>ld''. load_algorithm ld' aid = Inr (PyNone, ld'')
                        \<and> map_of (algorithm_cache ld'') aid = None)
            \<and> (\<exists>ld''. load_algorithm (register_algorithm ld' aid (Constructs s) md) aid
                          = Inr (Obj (fresh ld') s, ld'')
                        \<and> map_of (algorithm_cache ld'') aid = Some (Obj (fresh ld') s))))"
proof (intro conjI impI)
  note inv = reachable_inv[OF reach]
  assume nr: "map_of (algorithm_registry ld) aid = None"
  from load_unregistered[OF cached_is_registered[OF inv nr] nr]
  show "load_algorithm ld aid = Inr (PyNone, ld)" .
next
  note inv = reachable_inv[OF reach]
  assume a: "map_of (algorithm_cache ld) aid = None
     \<and> map_of (algorithm_registry ld) aid = Some (Raises e)"
  from load_raising_factory[OF inv] a obtain ld' where
    l: "load_algorithm ld aid = Inr (PyNone, ld')" and inv': "loader_inv ld'"
    and nc': "map_of (algorithm_cache ld') aid = None"
    and reg': "algorithm_registry ld' = algorithm_registry ld"
    by blast
  from reg' a have r': "map_of (algorithm_registry ld') aid = Some (Raises e)" by simp
  from load_raising_factory[OF inv' nc' r'] obtain ld2 where
    l2: "load_algorithm ld' aid = Inr (PyNone, ld2)" "map_of (algorithm_cache ld2) aid = None"
    by blast
  let ?ld3 = "register_algorithm ld' aid (Constructs s) md"
  have inv3: "loader_inv ?ld3" by (rule loader_inv_register[OF inv'])
  have nc3: "map_of (algorithm_cache ?ld3) aid = None"
    using nc' by (simp add: register_algorithm_def)
  have r3: "map_of (algorithm_registry ?ld3) aid = Some (Constructs s)"
    by (simp add: register_algorithm_def update_conv')
  have f3: "fresh ?ld3 = fresh ld'" by (simp add: register_algorithm_def)
  from load_constructing_factory[OF inv3 nc3 r3] f3 obtain ld4 where
    l4: "load_algorithm ?ld3 aid = Inr (Obj (fresh ld') s, ld4)"
      "map_of (algorithm_cache ld4) aid = Some (Obj (fresh ld') s)"
    by auto
  from l nc' reg' l2 l4
  show "\<exists>ld'. load_algorithm ld aid = Inr (PyNone, ld')
            \<and> map_of (algorithm_cache ld') aid = None
            \<and> algorithm_registry ld' = algorithm_registry ld
            \<and> (\<exists>ld''. load_algorithm ld' aid = Inr (PyNone, ld'')
                        \<and> map_of (algorithm_cache ld'') aid = None)
            \<and> (\<exists>ld''. load_algorithm (register_algorithm ld' aid (Constructs s) md) aid
                          = Inr (Obj (fresh ld') s, ld'')
                        \<and> map_of (algorithm_cache ld'') aid = Some (Obj (fresh ld') s))"
    by blast
qed

text \<open>
  The loader in which only \<open>broken\<close> is registered, with a factory that throws:
  \<open>ghost\<close> is not registered, \<open>broken\<close> is registered and not cached.
\<close>

theorem C5_failed_load_returns_none_witness:
  "run_ops (new_loader 100 frozen_clock) broken_ops = Inr broken_state
   \<and> map_of (algorithm_registry broken_state) ''ghost'' = None
   \<and> load_algorithm broken_state ''ghost'' = Inr (PyNone, broken_state)
   \<and> map_of (algorithm_cache broken_state) ''broken'' = None
   \<and> map_of (algorithm_registry broken_state) ''broken'' = Some (Raises (OtherException ''boom''))
   \<and> (\<exists>ld'. load_algorithm broken_state ''broken'' = Inr (PyNone, ld')
         \<and> map_of (algorithm_cache ld') ''broken'' = None
         \<and> algorithm_registry ld' = algorithm_registry broken_state
         \<and> (\<exists>ld''. load_algorithm ld' ''broken'' = Inr (PyNone, ld'')
                     \<and> map_of (algorithm_cache ld'') ''broken'' = None)
         \<and> (\<exists>ld''. load_algorithm
                       (register_algorithm ld' ''broken'' (Constructs (Callable double))
                          (demo_md ''broken'')) ''broken''
                       = Inr (Obj (fresh ld') (Callable double), ld'')
                     \<and> map_of (algorithm_cache ld'') ''broken''
                         = Some (Obj (fresh ld') (Callable double))))"
proof -
  have g: "map_of (algorithm_registry broken_state) ''ghost'' = None"
    by (simp add: broken_state_def loader_eval)
  have c: "map_of (algorithm_cache broken_state) ''broken'' = None"
    by (simp add: broken_state_def loader_eval)
  have r: "map_of (algorithm_registry broken_state) ''broken'' = Some (Raises (OtherException ''boom''))"
    by (simp add: broken_state_def loader_eval)
  note t1 = C5_failed_load_returns_none [OF broken_run, where aid = "''ghost''",
      THEN conjunct1, rule_format, OF g]
  note t2 = C5_failed_load_returns_none [OF broken_run, where aid = "''broken''"
      and e = "OtherException ''boom''" and s = "Callable double" and md = "demo_md ''broken''",
      THEN conjunct2, rule_format, OF conjI [OF c r]]
  from broken_run g t1 c r t2 show ?thesis by (intro conjI)
qed

text \<open>
  Claim C6, as stated: for every registered id two loads in a row return the same cached
  instance and raise the use count by two. It fails for a registered id whose factory
  throws: both loads return \<^verbatim>\<open>None\<close>, nothing is cached, and the use count stays
  0.
\<close>

theorem C6_failing_factory_counts_nothing:
  "fst (projr (load_algorithm broken_state ''broken'')) = PyNone
   \<and> fst (projr (load_algorithm (snd (projr (load_algorithm broken_state ''broken''))) ''broken''))
       = PyNone
   \<and> cached_ids (snd (projr (load_algorithm (snd (projr (load_algorithm broken_state ''broken'')))
         ''broken''))) = []
   \<and> use_count broken_state ''broken'' = Some 0
   \<and> use_count (snd (projr (load_algorithm (snd (projr (load_algorithm broken_state ''broken'')))
         ''broken''))) ''broken'' = Some 0"
  by (simp add: broken_state_def loader_eval)

text \<open>
  Claim C6, amended. On a loader reached from a new one by registrations and loads, for
  every registered id that is cached or whose factory does not throw, two loads in a row
  return the same object, which is the cached one after each of them; the second load
  constructs no object; and the use count of the id after the two loads is its use
  count before plus two.
\<close>

theorem C6_load_twice_same_instance:
  assumes reach: "run_ops (new_loader cap clk) ops = Inr ld"
    and reg: "map_of (algorithm_registry ld) aid = Some f"
    and ok: "has_key (algorithm_cache ld) aid \<or> (\<forall>e. f \<noteq> Raises e)"
  shows "\<exists>r ld1 ld2 n. load_algorithm ld aid = Inr (r, ld1)
     \<and> load_algorithm ld1 aid = Inr (r, ld2)
     \<and> map_of (algorithm_cache ld1) aid = Some r
     \<and> map_of (algorithm_cache ld2) aid = Some r
     \<and> fresh ld2 = fresh ld1
     \<and> use_count ld aid = Some n
     \<and> use_count ld2 aid = Some (n + 2)"
proof -
  note inv = reachable_inv[OF reach]
  from registered_has_metadata[OF inv reg] obtain n where n: "use_count ld aid = Some n"
    by (auto simp: use_count_def)
  have first: "\<exists>r ld1. load_algorithm ld aid = Inr (r, ld1)
     \<and> map_of (algorithm_cache ld1) aid = Some r \<and> use_count ld1 aid = Some (n + 1)"
  proof (cases "map_of (algorithm_cache ld) aid")
    case None
    with ok have "\<forall>e. f \<noteq> Raises e" by (simp add: has_key_def)
    from load_miss_caches[OF inv None reg this n] show ?thesis .
  next
    case (Some c)
    from load_hit[OF Some n] show ?thesis by blast
  qed
  then obtain r ld1 where l1: "load_algorithm ld aid = Inr (r, ld1)"
    and c1: "map_of (algorithm_cache ld1) aid = Some r"
    and u1: "use_count ld1 aid = Some (n + 1)"
    by blast
  from load_hit[OF c1 u1] l1 c1 n show ?thesis
    by (intro exI[of _ r] exI[of _ ld1] exI[of _ "update_access_stats ld1 aid"] exI[of _ n]) simp
qed

text \<open>The loader in which \<open>double\<close> is registered and not yet loaded.\<close>

theorem C6_load_twice_same_instance_witness:
  "run_ops (new_loader 100 ticking_clock) double_ops = Inr double_state
   \<and> map_of (algorithm_registry double_state) ''double'' = Some (Constructs (Callable double))
   \<and> use_count double_state ''double'' = Some 0
   \<and> (\<exists>r ld1 ld2 n. load_algorithm double_state ''double'' = Inr (r, ld1)
       \<and> load_algorithm ld1 ''double'' = Inr (r, ld2)
       \<and> map_of (algorithm_cache ld1) ''double'' = Some r
       \<and> map_of (algorithm_cache ld2) ''double'' = Some r
       \<and> fresh ld2 = fresh ld1
       \<and> use_count double_state ''double'' = Some n
       \<and> use_count ld2 ''double'' = Some (n + 2))"
proof -
  have r: "map_of (algorithm_registry double_state) ''double'' = Some (Constructs (Callable double))"
    by (simp add: double_state_def loader_eval)
  have u: "use_count double_state ''double'' = Some 0"
    by (simp add: double_state_def loader_eval)
  have ok: "has_key (algorithm_cache double_state) ''double''
      \<or> (\<forall>e. Constructs (Callable double) \<noteq> Raises e)"
    by simp
  from double_run r u C6_load_twice_same_instance [OF double_run r ok]
  show ?thesis by (intro conjI)
qed

text \<open>
  Claim C7, as stated: after an update of the monitoring loop every load factor lies
  between 0 and 1. It fails: without \<^verbatim>\<open>psutil\<close> the monitor reports 50 and 60,
  and the vertex gets the load factor 55.
\<close>

theorem C7_load_factor_not_normalized:
  "map (load_factor \<circ> snd)
       (vertices (monitor_step (snd (create_vertex (new_orchestrator 50) ''v'' 10)) NotInstalled))
     = [55]
   \<and> \<not> load_factors_normalized
         (monitor_step (snd (create_vertex (new_orchestrator 50) ''v'' 10)) NotInstalled)"
  by (simp add: load_factors_normalized_def monitor_step_def create_vertex_def new_orchestrator_def
      update_metrics_def get_cpu_usage_def get_memory_usage_def Let_def)

text \<open>
  Claim C7, amended. An update of the monitoring loop keeps the vertex ids and sets the
  load factor of every vertex to the mean of the CPU and the memory percentage the
  monitor holds; with the fallback values, or with samples on the percentage scale, that
  mean lies between 0 and 100. (Every iteration of the running loop is such an update, by
  \<open>monitor_resources_snoc\<close>.)
\<close>

theorem C7_load_factor_is_mean_percentage:
  assumes "ps = NotInstalled \<or> (\<exists>cpu mem. ps = Percentages cpu mem \<and> percent cpu \<and> percent mem)"
  shows "map fst (vertices (monitor_step orch ps)) = map fst (vertices orch)
    \<and> list_all (\<lambda>kv. load_factor (snd kv)
                       = (cpu_usage (resource_monitor (monitor_step orch ps))
                          + memory_usage (resource_monitor (monitor_step orch ps))) / 2
                     \<and> percent (load_factor (snd kv)))
        (vertices (monitor_step orch ps))"
  using assms
  by (auto simp: monitor_step_def update_metrics_def get_cpu_usage_def get_memory_usage_def
      Let_def list_all_iff percent_def)

theorem C7_load_factor_is_mean_percentage_witness:
  "percent 30 \<and> percent 70 \<and>
   map (load_factor \<circ> snd)
       (vertices (monitor_step (snd (create_vertex (new_orchestrator 50) ''v'' 10))
                    (Percentages 30 70))) = [50]
   \<and> list_all (\<lambda>kv. percent (load_factor (snd kv)))
       (vertices (monitor_step (snd (create_vertex (new_orchestrator 50) ''v'' 10))
                    (Percentages 30 70)))"
  using C7_load_factor_is_mean_percentage
          [of "Percentages 30 70" "snd (create_vertex (new_orchestrator 50) ''v'' 10)"]
  by (simp add: percent_def monitor_step_def create_vertex_def new_orchestrator_def
      update_metrics_def get_cpu_usage_def get_memory_usage_def Let_def)

text \<open>
  Claim C8, as stated: \<^verbatim>\<open>create_vertex\<close> fails on an id that exists and leaves the
  existing vertex alone. It fails: a vertex \<open>v\<close> of capacity 5 whose load factor the
  monitor has set to 55 is replaced, by a second \<^verbatim>\<open>create_vertex\<close> on \<open>v\<close>, with a
  new vertex of capacity 10 and load factor 0.
\<close>

theorem C8_create_vertex_replaces_existing:
  "map fst
     (vertices (monitor_step (snd (create_vertex (new_orchestrator 50) ''v'' 5)) NotInstalled))
     = [''v'']
   \<and> map (load_factor \<circ> snd)
     (vertices (monitor_step (snd (create_vertex (new_orchestrator 50) ''v'' 5)) NotInstalled))
     = [55]
   \<and> map (max_capacity \<circ> snd)
     (vertices (monitor_step (snd (create_vertex (new_orchestrator 50) ''v'' 5)) NotInstalled))
     = [5]
   \<and> map fst
     (vertices (snd (create_vertex
        (monitor_step (snd (create_vertex (new_orchestrator 50) ''v'' 5)) NotInstalled) ''v'' 10)))
     = [''v'']
   \<and> map (load_factor \<circ> snd)
     (vertices (snd (create_vertex
        (monitor_step (snd (create_vertex (new_orchestrator 50) ''v'' 5)) NotInstalled) ''v'' 10)))
     = [0]
   \<and> map (max_capacity \<circ> snd)
     (vertices (snd (create_vertex
        (monitor_step (snd (create_vertex (new_orchestrator 50) ''v'' 5)) NotInstalled) ''v'' 10)))
     = [10]"
  by (simp add: monitor_step_def create_vertex_def new_orchestrator_def
      update_metrics_def get_cpu_usage_def get_memory_usage_def Let_def)

text \<open>
  Claim C8, amended. \<^verbatim>\<open>create_vertex\<close> never fails: it returns a new vertex with the
  given id and capacity, no algorithms, no connections, empty state, load factor 0 and
  no active task, and binds the id to it in the vertex table, whether or not the id was
  bound before; every other id keeps its vertex, and an id that was bound keeps its
  place in the table.
\<close>

theorem C8_create_vertex_always_binds_new_node:
  "fst (create_vertex orch vid capacity)
     = \<lparr> vertex_id = vid, algorithms = [], connections = [], state = [],
         load_factor = 0, active_tasks = 0, max_capacity = capacity \<rparr>
   \<and> map_of (vertices (snd (create_vertex orch vid capacity)))
     = (map_of (vertices orch))(vid \<mapsto> fst (create_vertex orch vid capacity))
   \<and> map fst (vertices (snd (create_vertex orch vid capacity)))
     = (if has_key (vertices orch) vid then map fst (vertices orch)
        else map fst (vertices orch) @ [vid])"
  by (auto simp: create_vertex_def Let_def update_conv' update_keys has_key_def map_of_eq_None_iff)

text \<open>
  Claim C9, as stated: among the cached entries that share the oldest timestamp, the one
  with the lowest use count is evicted. It fails: with capacity 2 and coinciding clock
  readings, \<open>a\<close> (registered first, used twice) and \<open>b\<close> (used once) are cached
  with the same timestamp; the eviction, alone or within the load of \<open>c\<close>, removes
  \<open>a\<close> and keeps \<open>b\<close>.
\<close>

theorem C9_tie_ignores_use_count:
  "cached_ids tie_state = [''a'', ''b'']
   \<and> last_used_of tie_state ''a'' = Some 0
   \<and> last_used_of tie_state ''b'' = Some 0
   \<and> use_count tie_state ''a'' = Some 2
   \<and> use_count tie_state ''b'' = Some 1
   \<and> cached_ids (projr (evict_least_used tie_state)) = [''b'']
   \<and> cached_ids (snd (projr (load_algorithm tie_state ''c''))) = [''b'', ''c'']"
  by (simp add: tie_state_def loader_eval)

text \<open>
  Claim C9, amended. On a loader reached from a new one by registrations and loads and
  whose cache is not empty, the eviction removes one cached id \<open>k\<close>, the first in
  the metadata table among the cached ids with the oldest last-used timestamp: every
  cached id before \<open>k\<close> in the table has a strictly later timestamp, every cached id
  after it has a timestamp that is not earlier. The use count is not consulted. (The
  table keeps its ids in the order of their first registration, by
  \<open>register_keeps_table_order\<close> and \<open>load_keeps_table_order\<close>.)
\<close>

theorem C9_tie_broken_by_table_order:
  assumes "run_ops (new_loader cap clk) ops = Inr ld" and "algorithm_cache ld \<noteq> []"
  shows "\<exists>pre k md post.
      algorithm_metadata ld = pre @ (k, md) # post
    \<and> has_key (algorithm_cache ld) k
    \<and> evict_least_used ld = Inr (ld \<lparr> algorithm_cache := AList.delete k (algorithm_cache ld) \<rparr>)
    \<and> list_all (\<lambda>x. has_key (algorithm_cache ld) (fst x) \<longrightarrow> last_used md < last_used (snd x)) pre
    \<and> list_all (\<lambda>x. has_key (algorithm_cache ld) (fst x) \<longrightarrow> last_used md \<le> last_used (snd x)) post"
  using evict_spec[OF reachable_inv[OF assms(1)] assms(2)]
  by (simp add: list_all_iff)

text \<open>
  The loader of capacity 2 in which \<open>a\<close> and \<open>b\<close> are cached with the same
  timestamp.
\<close>

theorem C9_tie_broken_by_table_order_witness:
  "run_ops (new_loader 2 frozen_clock) tie_ops = Inr tie_state
   \<and> algorithm_cache tie_state \<noteq> []
   \<and> (\<exists>pre k md post.
        algorithm_metadata tie_state = pre @ (k, md) # post
      \<and> has_key (algorithm_cache tie_state) k
      \<and> evict_least_used tie_state
          = Inr (tie_state \<lparr> algorithm_cache := AList.delete k (algorithm_cache tie_state) \<rparr>)
      \<and> list_all (\<lambda>x. has_key (algorithm_cache tie_state) (fst x)
                        \<longrightarrow> last_used md < last_used (snd x)) pre
      \<and> list_all (\<lambda>x. has_key (algorithm_cache tie_state) (fst x)
                        \<longrightarrow> last_used md \<le> last_used (snd x)) post)"
  using tie_run tie_cache C9_tie_broken_by_table_order [OF tie_run tie_cache]
  by (intro conjI)

text \<open>
  Claim C10. \<^verbatim>\<open>create_vertex\<close> accepts a capacity of zero and stores the vertex.
  Automatic selection divides the active-task count of every vertex by its capacity: if
  some vertex has capacity zero, \<^verbatim>\<open>_select_optimal_vertex\<close> raises
  \<^verbatim>\<open>ZeroDivisionError\<close>, and so does \<^verbatim>\<open>execute_task\<close> when no vertex id is
  given, before anything is put into the queue; if no vertex has capacity zero, both
  return.
\<close>

theorem C10_zero_capacity_selection_raises:
  "max_capacity (fst (create_vertex orch vid 0)) = 0
   \<and> map_of (vertices (snd (create_vertex orch vid 0))) vid = Some (fst (create_vertex orch vid 0))
   \<and> ((\<exists>x\<in>set (vertices orch). max_capacity (snd x) = 0) \<longrightarrow>
        select_optimal_vertex orch aid = Inl ZeroDivisionError
        \<and> execute_task orch tid aid data prio None now = Inl ZeroDivisionError)
   \<and> ((\<forall>x\<in>set (vertices orch). max_capacity (snd x) \<noteq> 0) \<longrightarrow>
        (\<exists>v orch'. select_optimal_vertex orch aid = Inr (v, orch'))
        \<and> (\<exists>orch'. execute_task orch tid aid data prio None now = Inr orch'))"
proof (intro conjI impI)
  show "max_capacity (fst (create_vertex orch vid 0)) = 0"
    by (simp add: create_vertex_def Let_def)
  show "map_of (vertices (snd (create_vertex orch vid 0))) vid = Some (fst (create_vertex orch vid 0))"
    by (simp add: create_vertex_def Let_def update_conv')
next
  assume z: "\<exists>x\<in>set (vertices orch). max_capacity (snd x) = 0"
  then have ne: "vertices orch \<noteq> []" by auto
  from z have "\<exists>x\<in>set (vertices orch). selection_key x = Inl ZeroDivisionError"
    by (simp add: selection_key_cases)
  then have "py_min selection_key (vertices orch) = Inl ZeroDivisionError"
    by (rule py_min_raises) (simp add: selection_key_cases)
  with ne show s: "select_optimal_vertex orch aid = Inl ZeroDivisionError"
    by (simp add: select_optimal_vertex_def)
  then show "execute_task orch tid aid data prio None now = Inl ZeroDivisionError"
    by (simp add: execute_task_def)
next
  assume nz: "\<forall>x\<in>set (vertices orch). max_capacity (snd x) \<noteq> 0"
  show s: "\<exists>v orch'. select_optimal_vertex orch aid = Inr (v, orch')"
  proof (cases "vertices orch = []")
    case True
    then show ?thesis by (simp add: select_optimal_vertex_def)
  next
    case False
    from nz have "\<forall>x\<in>set (vertices orch). selection_key x =
        Inr (load_factor (snd x) + real_of_int (active_tasks (snd x)) / real_of_int (max_capacity (snd x)))"
      by (simp add: selection_key_def)
    from py_min_total[OF False this] obtain m where "py_min selection_key (vertices orch) = Inr m"
      by blast
    with False show ?thesis by (simp add: select_optimal_vertex_def)
  qed
  then show "\<exists>orch'. execute_task orch tid aid data prio None now = Inr orch'"
    by (auto simp: execute_task_def Let_def)
qed

theorem C10_zero_capacity_selection_raises_witness:
  "(\<exists>x\<in>set (vertices (snd (create_vertex (new_orchestrator 50) ''v0'' 0))).
      max_capacity (snd x) = 0)
   \<and> select_optimal_vertex (snd (create_vertex (new_orchestrator 50) ''v0'' 0)) ''a''
       = Inl ZeroDivisionError
   \<and> execute_task (snd (create_vertex (new_orchestrator 50) ''v0'' 0))
        ''t1'' ''a'' (PInt 5) MEDIUM None 0 = Inl ZeroDivisionError
   \<and> (\<exists>v orch'. select_optimal_vertex (snd (create_vertex (new_orchestrator 50) ''v1'' 10)) ''a''
        = Inr (v, orch'))"
  using C10_zero_capacity_selection_raises
          [where orch = "snd (create_vertex (new_orchestrator 50) ''v0'' 0)" and vid = "''v0''"
             and aid = "''a''" and tid = "''t1''" and data = "PInt 5" and prio = MEDIUM and now = 0]
        C10_zero_capacity_selection_raises
          [where orch = "snd (create_vertex (new_orchestrator 50) ''v1'' 10)" and vid = "''v0''"
             and aid = "''a''" and tid = "''t1''" and data = "PInt 5" and prio = MEDIUM and now = 0]
  by (simp add: create_vertex_def new_orchestrator_def Let_def)

end
